theory Spec2Isabelle
  imports
    Complex_Main
    "HOL-Library.Multiset"
    "HOL-Library.Sublist"
    "HOL-Library.Char_ord"
    "HOL-Library.List_Lexorder"
begin

section \<open>Defect prediction from change history (scripts/defect\_prediction.py)\<close>

text \<open>
  The script mines a repository's commits for per-file change counts
  (\<^verbatim>\<open>extract_file_change_history\<close>), scales the counts so that they sum to one
  (\<^verbatim>\<open>calculate_bug_scores\<close>) and prints the files with the highest scores
  (\<^verbatim>\<open>generate_report\<close>).

  Conventions of the embedding:
  \<^item> a Python \<^verbatim>\<open>dict\<close> is an association list with pairwise distinct keys, in
    insertion order (the order in which \<^verbatim>\<open>.items()\<close> and \<^verbatim>\<open>.values()\<close> iterate);
  \<^item> a change count is a Python \<^verbatim>\<open>int\<close>, hence an \<open>int\<close>;
  \<^item> a score is the rational number that the Python value denotes, and \<^verbatim>\<open>/\<close> is the
    exact quotient: the rounding of binary floating point is not part of the model;
  \<^item> the commits that \<^verbatim>\<open>repo.iter_commits('--all')\<close> yields are a parameter: a list of
    commits in the order of the walk, each commit given by the keys of
    \<^verbatim>\<open>commit.stats.files\<close>.
\<close>

subsection \<open>Dictionaries\<close>

type_synonym path = string

type_synonym 'v dict = "(path \<times> 'v) list"

definition dict_keys :: "'v dict \<Rightarrow> path list" where
  "dict_keys d = map fst d"

definition dict_values :: "'v dict \<Rightarrow> 'v list" where
  "dict_values d = map snd d"

definition dict_items :: "'v dict \<Rightarrow> (path \<times> 'v) list" where
  "dict_items d = d"

text \<open>\<^verbatim>\<open>d[k] = v\<close>: an existing key keeps its position, a new key goes to the end.\<close>

fun dict_setitem :: "path \<Rightarrow> 'v \<Rightarrow> 'v dict \<Rightarrow> 'v dict" where
  "dict_setitem k v [] = [(k, v)]"
| "dict_setitem k v ((k', v') # d) =
     (if k' = k then (k', v) # d else (k', v') # dict_setitem k v d)"

text \<open>
  \<^verbatim>\<open>d[k]\<close> on a \<^verbatim>\<open>defaultdict(int)\<close>: a missing key is first stored with the value
  \<^verbatim>\<open>int() = 0\<close>. The result is the value read and the dictionary after the read.
\<close>

definition defaultdict_getitem :: "path \<Rightarrow> int dict \<Rightarrow> int \<times> int dict" where
  "defaultdict_getitem k d =
     (case map_of d k of
        Some v \<Rightarrow> (v, d)
      | None \<Rightarrow> (0, dict_setitem k 0 d))"

text \<open>The count a record holds for a file; a file that is not a key has count 0.\<close>

definition count_of :: "int dict \<Rightarrow> path \<Rightarrow> int" where
  "count_of d f = (case map_of d f of Some c \<Rightarrow> c | None \<Rightarrow> 0)"

subsection \<open>Change aggregation\<close>

type_synonym commit = "path list"

text \<open>\<^verbatim>\<open>file_change_count[file] += 1\<close>\<close>

definition increment :: "path \<Rightarrow> int dict \<Rightarrow> int dict" where
  "increment file d =
     (let (v, d') = defaultdict_getitem file d in dict_setitem file (v + 1) d')"

text \<open>\<^verbatim>\<open>for file in changed_files: file_change_count[file] += 1\<close>\<close>

fun count_files :: "path list \<Rightarrow> int dict \<Rightarrow> int dict" where
  "count_files [] d = d"
| "count_files (file # changed_files) d = count_files changed_files (increment file d)"

text \<open>\<^verbatim>\<open>for commit in repo.iter_commits('--all'): ...\<close>\<close>

fun walk_commits :: "commit list \<Rightarrow> int dict \<Rightarrow> int dict" where
  "walk_commits [] d = d"
| "walk_commits (commit # commits) d = walk_commits commits (count_files commit d)"

definition extract_file_change_history :: "commit list \<Rightarrow> int dict" where
  "extract_file_change_history commits = walk_commits commits []"

subsection \<open>Score normalisation\<close>

text \<open>
  A Python number, \<^verbatim>\<open>int\<close> or \<^verbatim>\<open>float\<close>, as the rational it denotes.
\<close>

type_synonym number = rat

datatype py_error = ZeroDivisionError

text \<open>\<^verbatim>\<open>a / b\<close>\<close>

definition truediv :: "number \<Rightarrow> number \<Rightarrow> py_error + number" where
  "truediv a b = (if b = 0 then Inl ZeroDivisionError else Inr (a / b))"

text \<open>\<^verbatim>\<open>sum(xs)\<close>: starts from 0 and adds the elements from left to right.\<close>

definition py_sum :: "number list \<Rightarrow> number" where
  "py_sum xs = foldl (+) 0 xs"

text \<open>
  The two dictionaries that \<^verbatim>\<open>calculate_bug_scores\<close> works on: its argument, an object
  of the caller's, and the dictionary it creates with \<^verbatim>\<open>bug_scores = {}\<close> and returns.
\<close>

record frame =
  file_change_count :: "number dict"
  bug_scores :: "number dict"

text \<open>
  \<^verbatim>\<open>for file, changes in file_change_count.items():\<close>
  \<^verbatim>\<open>    bug_scores[file] = changes / total_changes\<close>
\<close>

fun score_items :: "(path \<times> number) list \<Rightarrow> number \<Rightarrow> frame \<Rightarrow> py_error + frame" where
  "score_items [] total_changes s = Inr s"
| "score_items ((file, changes) # rest) total_changes s =
     (case truediv changes total_changes of
        Inl e \<Rightarrow> Inl e
      | Inr q \<Rightarrow>
          score_items rest total_changes
            (s\<lparr>bug_scores := dict_setitem file q (bug_scores s)\<rparr>))"

text \<open>
  The result \<open>Inr s\<close> stands for a call that returns \<open>bug_scores s\<close> and leaves the
  caller's dictionary as \<open>file_change_count s\<close>; \<open>Inl e\<close> for a call that raises \<open>e\<close>.
\<close>

definition calculate_bug_scores :: "number dict \<Rightarrow> py_error + frame" where
  "calculate_bug_scores fcc =
     (let s = \<lparr>file_change_count = fcc, bug_scores = []\<rparr>;
          total_changes = py_sum (dict_values (file_change_count s))
      in if total_changes = 0 then Inr s
         else score_items (dict_items (file_change_count s)) total_changes s)"

text \<open>The counts of a change record as numbers, as \<^verbatim>\<open>main\<close> hands them on.\<close>

definition as_numbers :: "int dict \<Rightarrow> number dict" where
  "as_numbers d = map (\<lambda>(f, c). (f, of_int c)) d"

subsection \<open>The report\<close>

text \<open>
  \<^verbatim>\<open>sorted(xs, key=key, reverse=True)\<close>: descending by key; the sort is stable, also
  with \<^verbatim>\<open>reverse=True\<close>, so elements with equal keys keep the order they have in
  \<open>xs\<close>.
\<close>

definition sorted_reverse :: "('a \<Rightarrow> number) \<Rightarrow> 'a list \<Rightarrow> 'a list" where
  "sorted_reverse key xs = sort_key (\<lambda>x. - key x) xs"

text \<open>
  \<^verbatim>\<open>xs[:n]\<close>: the first \<open>n\<close> elements, and for a negative \<open>n\<close> all but the last
  \<open>- n\<close>.
\<close>

definition slice_to :: "'a list \<Rightarrow> int \<Rightarrow> 'a list" where
  "slice_to xs n = (if 0 \<le> n then take (nat n) xs else take (length xs - nat (- n)) xs)"

text \<open>\<^verbatim>\<open>enumerate(xs, i)\<close>\<close>

fun enumerate_from :: "int \<Rightarrow> 'a list \<Rightarrow> (int \<times> 'a) list" where
  "enumerate_from i [] = []"
| "enumerate_from i (x # xs) = (i, x) # enumerate_from (i + 1) xs"

text \<open>
  A printed line \<^verbatim>\<open>{i}. {file} (Score: {score:.4f})\<close>, as the three values it
  renders. The report is the sequence of the lines printed after the heading.
\<close>

type_synonym report_line = "int \<times> path \<times> number"

definition generate_report :: "number dict \<Rightarrow> int \<Rightarrow> report_line list" where
  "generate_report scores top_n =
     (let sorted_files = sorted_reverse snd (dict_items scores)
      in map (\<lambda>(i, (file, score)). (i, file, score))
           (enumerate_from 1 (slice_to sorted_files top_n)))"

subsection \<open>Notions of the specification\<close>


text \<open>
  The order the specification asks of a report: scores descending, and paths ascending
  among equal scores.
\<close>

definition ranked_by_score_then_path :: "report_line list \<Rightarrow> bool" where
  "ranked_by_score_then_path r \<longleftrightarrow>
     sorted_wrt (\<lambda>(i, f, s) (j, g, t). t < s \<or> (t = s \<and> f \<le> g)) r"

section \<open>Properties of the aggregation\<close>

lemma map_of_dict_setitem: "map_of (dict_setitem k v d) = (map_of d)(k \<mapsto> v)"
  by (induction d) (auto simp: fun_eq_iff)

lemma keys_dict_setitem:
  "dict_keys (dict_setitem k v d) =
     (if k \<in> set (dict_keys d) then dict_keys d else dict_keys d @ [k])"
  by (induction d) (force simp: dict_keys_def)+

lemma map_of_increment:
  "map_of (increment f d) = (map_of d)(f \<mapsto> count_of d f + 1)"
  by (auto simp: increment_def defaultdict_getitem_def count_of_def map_of_dict_setitem split: option.splits)

lemma count_of_increment:
  "count_of (increment f d) g = count_of d g + (if g = f then 1 else 0)"
  by (simp add: count_of_def map_of_increment)

lemma keys_increment:
  "dict_keys (increment f d) = (if f \<in> set (dict_keys d) then dict_keys d else dict_keys d @ [f])"
proof (cases "map_of d f")
  case None
  then have "f \<notin> set (dict_keys d)"
    by (simp add: dict_keys_def map_of_eq_None_iff)
  with None show ?thesis
    by (simp add: increment_def defaultdict_getitem_def keys_dict_setitem)
next
  case (Some v)
  then have "f \<in> set (dict_keys d)"
    by (auto simp: dict_keys_def dest: map_of_SomeD intro: rev_image_eqI)
  with Some show ?thesis
    by (simp add: increment_def defaultdict_getitem_def keys_dict_setitem)
qed

lemma count_of_count_files:
  "count_of (count_files fs d) g = count_of d g + int (count_list fs g)"
  by (induction fs arbitrary: d) (simp_all add: count_of_increment)

lemma count_of_walk_commits:
  "count_of (walk_commits cs d) g = count_of d g + (\<Sum>c\<leftarrow>cs. int (count_list c g))"
  by (induction cs arbitrary: d) (simp_all add: count_of_count_files)

lemma set_keys_count_files:
  "set (dict_keys (count_files fs d)) = set (dict_keys d) \<union> set fs"
  by (induction fs arbitrary: d) (auto simp: keys_increment)

lemma set_keys_walk_commits:
  "set (dict_keys (walk_commits cs d)) = set (dict_keys d) \<union> \<Union>(set ` set cs)"
  by (induction cs arbitrary: d) (auto simp: set_keys_count_files)




lemma map_of_by_count:
  "map_of d f = (if f \<in> set (dict_keys d) then Some (count_of d f) else None)"
proof (cases "map_of d f")
  case None
  then show ?thesis by (simp add: dict_keys_def map_of_eq_None_iff)
next
  case (Some c)
  then have "f \<in> set (dict_keys d)"
    by (auto simp: dict_keys_def dest: map_of_SomeD intro: rev_image_eqI)
  with Some show ?thesis by (simp add: count_of_def)
qed

lemma sum_list_perm:
  fixes g :: "'a \<Rightarrow> int"
  assumes "mset xs = mset ys"
  shows "sum_list (map g xs) = sum_list (map g ys)"
proof -
  have "sum_list (map g xs) = sum_mset (image_mset g (mset xs))"
    by (metis mset_map sum_mset_sum_list)
  also have "\<dots> = sum_mset (image_mset g (mset ys))"
    by (simp add: assms)
  also have "\<dots> = sum_list (map g ys)"
    by (metis mset_map sum_mset_sum_list)
  finally show ?thesis .
qed

lemma set_dict_setitem: "set (dict_setitem k v d) \<subseteq> insert (k, v) (set d)"
  by (induction d) (auto split: if_splits)

lemma values_dict_setitem:
  "set (dict_values (dict_setitem k v d)) \<subseteq> insert v (set (dict_values d))"
  using image_mono [OF set_dict_setitem, of snd k v d] by (simp add: dict_values_def)

lemma count_of_cases:
  "count_of d f = 0 \<or> count_of d f \<in> set (dict_values d)"
  by (auto simp: count_of_def dict_values_def split: option.splits
      dest: map_of_SomeD intro: rev_image_eqI)

lemma values_increment:
  "set (dict_values (increment f d)) \<subseteq> insert (count_of d f + 1) (set (dict_values d))"
proof (cases "map_of d f")
  case None
  have "dict_setitem f (1::int) (dict_setitem f 0 d) = dict_setitem f 1 d"
    by (induction d) auto
  with None show ?thesis
    using values_dict_setitem [of f 1 d]
    by (simp add: increment_def defaultdict_getitem_def count_of_def)
next
  case (Some v)
  then show ?thesis
    using values_dict_setitem [of f "v + 1" d]
    by (simp add: increment_def defaultdict_getitem_def count_of_def)
qed

lemma nonneg_increment:
  assumes "\<forall>n \<in> set (dict_values d). 0 \<le> n"
  shows "\<forall>n \<in> set (dict_values (increment f d)). 0 \<le> n"
proof -
  have "0 \<le> count_of d f"
    using count_of_cases [of d f] assms by auto
  with assms values_increment [of f d] show ?thesis by auto
qed

lemma nonneg_count_files:
  "\<forall>n \<in> set (dict_values d). 0 \<le> n \<Longrightarrow> \<forall>n \<in> set (dict_values (count_files fs d)). 0 \<le> n"
proof (induction fs arbitrary: d)
  case Nil
  then show ?case by simp
next
  case (Cons x xs)
  show ?case
    using Cons.IH [OF nonneg_increment [OF Cons.prems]] by simp
qed

lemma nonneg_walk_commits:
  "\<forall>n \<in> set (dict_values d). 0 \<le> n \<Longrightarrow> \<forall>n \<in> set (dict_values (walk_commits cs d)). 0 \<le> n"
proof (induction cs arbitrary: d)
  case Nil
  then show ?case by simp
next
  case (Cons x xs)
  show ?case
    using Cons.IH [OF nonneg_count_files [OF Cons.prems]] by simp
qed




lemma count_files_append:
  "count_files (xs @ ys) d = count_files ys (count_files xs d)"
  by (induction xs arbitrary: d) simp_all

lemma walk_commits_append:
  "walk_commits (xs @ ys) d = walk_commits ys (walk_commits xs d)"
  by (induction xs arbitrary: d) simp_all

section \<open>The claims about the aggregation\<close>

text \<open>
  C8. Aggregating no commits gives the empty record; a commit that touches no file
  leaves every record as it is, wherever it occurs in the walk; and aggregating a
  single such commit gives the empty record. The aggregation has no failing step.
\<close>

theorem extract_tolerates_nothing_to_count:
  "extract_file_change_history [] = []
   \<and> count_files [] d = d
   \<and> walk_commits (before @ [] # after) d = walk_commits (before @ after) d
   \<and> extract_file_change_history [[]] = []"
  by (simp add: extract_file_change_history_def walk_commits_append)

theorem extract_tolerates_nothing_to_count_witness:
  "walk_commits ([[''a.py'']] @ [] # [[''b.py'']]) [(''a.py'', 1)] = [(''a.py'', 2), (''b.py'', 1)]
   \<and> walk_commits ([[''a.py'']] @ [[''b.py'']]) [(''a.py'', 1)] = [(''a.py'', 2), (''b.py'', 1)]"
  using extract_tolerates_nothing_to_count [of "[(''a.py'', 1)]" "[[''a.py'']]" "[[''b.py'']]"]
  by (simp add: increment_def defaultdict_getitem_def)

text \<open>
  C4. The walk may visit the commits in any order: two commit sequences that are
  permutations of each other give the same count for every file, and the same keys.
  (The two dictionaries are equal as mappings, as Python's \<^verbatim>\<open>==\<close> compares them;
  the order of their keys is the order of first occurrence in the walk.)
\<close>

theorem extract_order_independent:
  assumes "mset commits' = mset commits"
  shows "map_of (extract_file_change_history commits') =
         map_of (extract_file_change_history commits)"
proof
  fix f
  have s: "set commits' = set commits"
    using assms by (rule mset_eq_setD)
  have k: "set (dict_keys (extract_file_change_history commits')) =
           set (dict_keys (extract_file_change_history commits))"
    by (simp add: extract_file_change_history_def set_keys_walk_commits s)
  have c: "count_of (extract_file_change_history commits') f =
           count_of (extract_file_change_history commits) f"
    by (simp add: extract_file_change_history_def count_of_walk_commits
        sum_list_perm [OF assms])
  show "map_of (extract_file_change_history commits') f =
        map_of (extract_file_change_history commits) f"
    by (simp add: map_of_by_count k c)
qed

theorem extract_order_independent_witness:
  "mset [[''b.py''], [''a.py'', ''b.py''], [''a.py'']]
     = mset [[''a.py''], [''a.py'', ''b.py''], [''b.py'']]
   \<and> map_of (extract_file_change_history [[''b.py''], [''a.py'', ''b.py''], [''a.py'']])
     = map_of (extract_file_change_history [[''a.py''], [''a.py'', ''b.py''], [''b.py'']])"
proof -
  have p: "mset [[''b.py''], [''a.py'', ''b.py''], [''a.py'']]
             = mset [[''a.py''], [''a.py'', ''b.py''], [''b.py'']]"
    by (simp add: add.commute)
  show ?thesis
    using p extract_order_independent [OF p] by simp
qed

text \<open>
  C9. At every point of a pass, that is after any number \<open>pre\<close> of commits and the
  first files \<open>fs\<close> of the next one, every count of the record is non-negative; and
  going on, by one file, by the rest \<open>gs\<close> of the commit or (with \<open>fs\<close> empty) by a
  whole commit, only adds: the record then holds no smaller count for any file (a file
  that is not a key counting as 0), has non-negative counts again, and keeps every key.
  The pass goes on from that record.
\<close>

theorem counts_only_grow:
  "let before = count_files fs (walk_commits pre []);
       after = count_files gs before
   in (\<forall>n \<in> set (dict_values before). 0 \<le> n)
      \<and> (\<forall>n \<in> set (dict_values after). 0 \<le> n)
      \<and> (\<forall>f. count_of before f \<le> count_of after f)
      \<and> set (dict_keys before) \<subseteq> set (dict_keys after)
      \<and> walk_commits (pre @ (fs @ gs) # post) [] = walk_commits post after"
proof -
  have "\<forall>n \<in> set (dict_values (walk_commits pre [])). 0 \<le> n"
    by (rule nonneg_walk_commits) (simp add: dict_values_def)
  then have b: "\<forall>n \<in> set (dict_values (count_files fs (walk_commits pre []))). 0 \<le> n"
    by (rule nonneg_count_files)
  show ?thesis
    unfolding Let_def
    using b nonneg_count_files [OF b, of gs]
    by (simp add: walk_commits_append count_files_append count_of_count_files
        set_keys_count_files)
qed

theorem counts_only_grow_witness:
  "count_files [''a.py''] (walk_commits [[''a.py'']] []) = [(''a.py'', 2)]
   \<and> count_files [''b.py''] [(''a.py'', 2)] = [(''a.py'', 2), (''b.py'', 1)]
   \<and> count_of [(''a.py'', 2)] ''a.py'' \<le> count_of [(''a.py'', 2), (''b.py'', 1)] ''a.py''
   \<and> count_of [(''a.py'', 2)] ''b.py'' \<le> count_of [(''a.py'', 2), (''b.py'', 1)] ''b.py''
   \<and> walk_commits ([[''a.py'']] @ ([''a.py''] @ [''b.py'']) # [[''b.py'']]) []
       = walk_commits [[''b.py'']] [(''a.py'', 2), (''b.py'', 1)]"
  using counts_only_grow [of "[''a.py'']" "[[''a.py'']]" "[''b.py'']" "[[''b.py'']]"]
  by (simp add: Let_def increment_def defaultdict_getitem_def)

section \<open>Properties of the normalisation\<close>

lemma py_sum_sum_list: "py_sum xs = sum_list xs"
proof -
  have "foldl (+) a xs = a + sum_list xs" for a :: number
    by (induction xs arbitrary: a) (simp_all add: add.assoc)
  from this [of 0] show ?thesis by (simp add: py_sum_def)
qed



lemma score_items_no_error:
  "t \<noteq> 0 \<Longrightarrow> \<exists>s'. score_items xs t s = Inr s' \<and> file_change_count s' = file_change_count s"
  by (induction xs t s rule: score_items.induct) (simp_all add: truediv_def)

lemma calculate_bug_scores_no_error:
  "\<exists>s. calculate_bug_scores raw = Inr s \<and> file_change_count s = raw"
  using score_items_no_error [of "py_sum (dict_values raw)" "dict_items raw" "\<lparr>file_change_count = raw, bug_scores = []\<rparr>"]
  by (auto simp: calculate_bug_scores_def Let_def)












section \<open>The claims about the normalisation\<close>





text \<open>
  C2. For every input whose total is 0, \<^verbatim>\<open>calculate_bug_scores\<close> returns the empty
  dictionary and raises nothing; the total of a dictionary whose values are all 0 is 0,
  and so is that of the empty dictionary.
\<close>

theorem zero_total_gives_empty_scores:
  "(py_sum (dict_values raw) = 0 \<longrightarrow>
      calculate_bug_scores raw = Inr \<lparr>file_change_count = raw, bug_scores = []\<rparr>)
   \<and> ((\<forall>v \<in> set (dict_values raw). v = 0) \<longrightarrow> py_sum (dict_values raw) = 0)
   \<and> calculate_bug_scores [] = Inr \<lparr>file_change_count = [], bug_scores = []\<rparr>"
proof (intro conjI impI)
  assume "\<forall>v \<in> set (dict_values raw). v = 0"
  then have "sum_list (dict_values raw) = 0"
    by (induction raw) (simp_all add: dict_values_def)
  then show "py_sum (dict_values raw) = 0"
    by (simp add: py_sum_sum_list)
qed (simp_all add: calculate_bug_scores_def py_sum_def dict_values_def)

theorem zero_total_gives_empty_scores_witness:
  "py_sum (dict_values [(''a.py'', 0), (''b.py'', 0)]) = 0
   \<and> calculate_bug_scores [(''a.py'', 0), (''b.py'', 0)]
       = Inr \<lparr>file_change_count = [(''a.py'', 0), (''b.py'', 0)], bug_scores = []\<rparr>"
  using zero_total_gives_empty_scores [of "[(''a.py'', 0), (''b.py'', 0)]"]
  by (simp add: dict_values_def)






section \<open>Properties of the report\<close>

lemma sorted_reverse_descending:
  "sorted_wrt (\<lambda>a b. key b \<le> key a) (sorted_reverse key xs)"
proof -
  have "sorted (map (\<lambda>x. - key x) (sorted_reverse key xs))"
    by (simp add: sorted_reverse_def)
  then show ?thesis
    by (simp add: sorted_map sorted_wrt_iff_nth_less)
qed

lemma sorted_reverse_stable:
  "filter (\<lambda>y. key y = k) (sorted_reverse key xs) = filter (\<lambda>y. key y = k) xs"
  using sort_key_stable [of "\<lambda>x. - key x" "- k" xs]
  by (simp add: sorted_reverse_def)

lemma mset_sorted_reverse: "mset (sorted_reverse key xs) = mset xs"
  by (simp add: sorted_reverse_def)

lemma length_sorted_reverse: "length (sorted_reverse key xs) = length xs"
  by (simp add: sorted_reverse_def)

lemma slice_to_take: "slice_to xs n = take (if 0 \<le> n then nat n else length xs - nat (- n)) xs"
  by (simp add: slice_to_def)

lemma snd_enumerate_from: "map snd (enumerate_from i xs) = xs"
  by (induction xs arbitrary: i) simp_all

lemma fst_enumerate_from: "map fst (enumerate_from i xs) = map (\<lambda>j. i + int j) [0..<length xs]"
proof (induction xs arbitrary: i)
  case Nil
  then show ?case by simp
next
  case (Cons x xs)
  have "map (\<lambda>j. i + int j) [0..<Suc (length xs)]
          = i # map (\<lambda>j. i + 1 + int j) [0..<length xs]"
    by (simp add: upt_conv_Cons map_Suc_upt [symmetric] del: upt_Suc)
  with Cons show ?case by simp
qed

lemma length_enumerate_from: "length (enumerate_from i xs) = length xs"
  by (induction xs arbitrary: i) simp_all

lemma entries_generate_report:
  "map snd (generate_report scores top_n) = slice_to (sorted_reverse snd scores) top_n"
proof -
  have "map snd (map (\<lambda>(i, (file, score)). (i, file, score)) ys) = map snd ys"
    for ys :: "(int \<times> path \<times> number) list"
    by (induction ys) auto
  then show ?thesis
    by (simp add: generate_report_def dict_items_def snd_enumerate_from)
qed

lemma ranks_generate_report:
  "map fst (generate_report scores top_n)
     = map (\<lambda>j. 1 + int j) [0..<length (generate_report scores top_n)]"
proof -
  have "map fst (map (\<lambda>(i, (file, score)). (i, file, score)) ys) = map fst ys"
    for ys :: "(int \<times> path \<times> number) list"
    by (induction ys) auto
  then show ?thesis
    by (simp add: generate_report_def fst_enumerate_from length_enumerate_from)
qed


lemma ranks_from_one: "map (\<lambda>j. 1 + int j) [0..<n] = map int [1..<Suc n]"
  by (induction n) simp_all

lemma filter_take_prefix: "prefix (filter P (take m ys)) (filter P ys)"
proof -
  have "filter P ys = filter P (take m ys) @ filter P (drop m ys)"
    by (metis append_take_drop_id filter_append)
  then show ?thesis by (rule prefixI)
qed

lemma pair_order_conv:
  "(\<lambda>(i, f, s) (j, g, t). t \<le> s) = (\<lambda>x y. snd (snd y) \<le> (snd (snd x) :: number))"
  by (auto simp: fun_eq_iff)

lemma score_filter_conv: "(\<lambda>(f, s). s = k) = (\<lambda>y. snd y = k)"
  by (auto simp: fun_eq_iff)

section \<open>The claims about the report\<close>

text \<open>
  C3, as stated, fails on ties. Two commits, the first touching \<^verbatim>\<open>b.py\<close> and the second
  \<^verbatim>\<open>a.py\<close>, give both files the score 1/2, with \<^verbatim>\<open>b.py\<close> inserted first; the report
  ranks \<^verbatim>\<open>b.py\<close> before \<^verbatim>\<open>a.py\<close>, which is not ascending by path.
\<close>

theorem report_ties_not_by_path:
  "calculate_bug_scores (as_numbers (extract_file_change_history [[''b.py''], [''a.py'']]))
     = Inr \<lparr>file_change_count = [(''b.py'', 1), (''a.py'', 1)],
            bug_scores = [(''b.py'', 1 / 2), (''a.py'', 1 / 2)]\<rparr>
   \<and> generate_report [(''b.py'', 1 / 2), (''a.py'', 1 / 2)] 2
       = [(1, ''b.py'', 1 / 2), (2, ''a.py'', 1 / 2)]
   \<and> \<not> ranked_by_score_then_path (generate_report [(''b.py'', 1 / 2), (''a.py'', 1 / 2)] 2)"
  by (simp add: generate_report_def sorted_reverse_def slice_to_def dict_items_def
      ranked_by_score_then_path_def calculate_bug_scores_def as_numbers_def
      extract_file_change_history_def increment_def defaultdict_getitem_def
      py_sum_def dict_values_def truediv_def)

text \<open>
  C3, amended. For every score map and every \<open>top_n\<close> (positive or not), the report
  lists its entries by score descending; entries with equal scores appear in the order
  in which the score map holds them (its insertion order), since the sort is stable and
  compares scores only; the ranks count from 1; the entries listed are entries of the
  score map, none of them with a smaller score than an entry left out; and for
  \<open>top_n \<ge> 0\<close> there are \<open>min top_n (size of the map)\<close> of them. The report is a
  function of the score map (its entries and their order) and of \<open>top_n\<close>, so repeated
  calls on the same input give the same report.
\<close>

theorem report_order:
  "let r = generate_report scores top_n in
     sorted_wrt (\<lambda>(i, f, s) (j, g, t). t \<le> s) r
     \<and> (\<forall>k. prefix (filter (\<lambda>(f, s). s = k) (map snd r)) (filter (\<lambda>(f, s). s = k) scores))
     \<and> map fst r = map int [1..<Suc (length r)]
     \<and> (\<exists>rest. mset (map snd r @ rest) = mset scores
           \<and> (\<forall>a \<in> set (map snd r). \<forall>b \<in> set rest. snd b \<le> snd a))
     \<and> (0 \<le> top_n \<longrightarrow> length r = min (nat top_n) (length scores))"
proof -
  define ys where "ys = sorted_reverse snd scores"
  define m where "m = (if 0 \<le> top_n then nat top_n else length ys - nat (- top_n))"
  define r where "r = generate_report scores top_n"
  have e: "map snd r = take m ys"
    by (simp add: r_def ys_def m_def entries_generate_report slice_to_take)
  have d: "sorted_wrt (\<lambda>a b. snd b \<le> snd a) ys"
    unfolding ys_def by (rule sorted_reverse_descending)
  have "sorted_wrt (\<lambda>a b. snd b \<le> snd a) (map snd r)"
    unfolding e using d by (rule sorted_wrt_take)
  then have 1: "sorted_wrt (\<lambda>(i, f, s) (j, g, t). t \<le> s) r"
    by (simp add: sorted_wrt_map pair_order_conv)
  have 2: "prefix (filter (\<lambda>(f, s). s = k) (map snd r)) (filter (\<lambda>(f, s). s = k) scores)" for k
  proof -
    have "prefix (filter (\<lambda>y. snd y = k) (take m ys)) (filter (\<lambda>y. snd y = k) ys)"
      by (rule filter_take_prefix)
    then show ?thesis
      by (simp add: e score_filter_conv ys_def sorted_reverse_stable)
  qed
  have 3: "map fst r = map int [1..<Suc (length r)]"
    unfolding r_def by (simp only: ranks_generate_report ranks_from_one)
  have "sorted_wrt (\<lambda>a b. snd b \<le> snd a) (take m ys @ drop m ys)"
    using d by simp
  then have "\<forall>a \<in> set (take m ys). \<forall>b \<in> set (drop m ys). snd b \<le> snd a"
    unfolding sorted_wrt_append by blast
  moreover have "mset (take m ys @ drop m ys) = mset scores"
    by (simp add: ys_def mset_sorted_reverse)
  ultimately have 4: "\<exists>rest. mset (map snd r @ rest) = mset scores
           \<and> (\<forall>a \<in> set (map snd r). \<forall>b \<in> set rest. snd b \<le> snd a)"
    unfolding e by blast
  have "length r = length (map snd r)" by simp
  also have "\<dots> = min m (length scores)"
    unfolding e by (simp add: ys_def length_sorted_reverse min.commute)
  finally have 5: "0 \<le> top_n \<longrightarrow> length r = min (nat top_n) (length scores)"
    by (simp add: m_def)
  show ?thesis
    unfolding Let_def r_def [symmetric]
    using 1 2 3 4 5 by blast
qed

theorem report_order_witness:
  "generate_report [(''b.py'', 1 / 4), (''c.py'', 1 / 2), (''a.py'', 1 / 4)] 3
     = [(1, ''c.py'', 1 / 2), (2, ''b.py'', 1 / 4), (3, ''a.py'', 1 / 4)]
   \<and> prefix (filter (\<lambda>(f, s). s = 1 / 4) [(''c.py'', 1 / 2), (''b.py'', 1 / 4), (''a.py'', 1 / 4)])
        (filter (\<lambda>(f, s). s = 1 / 4) [(''b.py'', 1 / 4), (''c.py'', 1 / 2), (''a.py'', 1 / 4 :: number)])"
  using report_order [of "[(''b.py'', 1 / 4), (''c.py'', 1 / 2), (''a.py'', 1 / 4)]" 3]
  by (simp add: generate_report_def sorted_reverse_def slice_to_def dict_items_def)

text \<open>
  C6. When \<open>top_n\<close> is greater than the number of entries of the score map, the report
  has exactly one line for each entry: as many lines as the map has entries, and the
  entries listed are those of the map. The report has no failing step.
\<close>

theorem report_lists_everything:
  assumes "int (length scores) < top_n"
  shows "length (generate_report scores top_n) = length scores
         \<and> mset (map snd (generate_report scores top_n)) = mset scores"
proof -
  have "slice_to (sorted_reverse snd scores) top_n = sorted_reverse snd scores"
    using assms by (simp add: slice_to_def length_sorted_reverse)
  then have e: "map snd (generate_report scores top_n) = sorted_reverse snd scores"
    by (simp add: entries_generate_report)
  have "length (generate_report scores top_n) = length (map snd (generate_report scores top_n))"
    by simp
  also have "\<dots> = length scores"
    unfolding e by (rule length_sorted_reverse)
  finally show ?thesis
    by (simp add: e mset_sorted_reverse)
qed

theorem report_lists_everything_witness:
  "int (length [(''b.py'', 1 / 4), (''c.py'', 1 / 2), (''a.py'', 1 / 4 :: number)]) < 10
   \<and> generate_report [(''b.py'', 1 / 4), (''c.py'', 1 / 2), (''a.py'', 1 / 4)] 10
       = [(1, ''c.py'', 1 / 2), (2, ''b.py'', 1 / 4), (3, ''a.py'', 1 / 4)]
   \<and> length (generate_report [(''b.py'', 1 / 4), (''c.py'', 1 / 2), (''a.py'', 1 / 4)] 10) = 3"
  using report_lists_everything [of "[(''b.py'', 1 / 4), (''c.py'', 1 / 2), (''a.py'', 1 / 4)]" 10]
  by (simp add: generate_report_def sorted_reverse_def slice_to_def dict_items_def)

end
